theory Spec2Isabelle
  imports Main "HOL-Library.Word" "HOL-Library.Sublist"
begin

section \<open>JavaScript strings\<close>

text \<open>
  A JavaScript string is a sequence of UTF-16 code units. String literals of the
  development are written in ASCII and injected with \<open>ascii\<close>.
\<close>

type_synonym jsstring = "16 word list"

definition ascii :: "string \<Rightarrow> jsstring" where
  "ascii s = map of_char s"

text \<open>
  The code units matched by \<^verbatim>\<open>\s\<close> in a regular expression, which are also the ones
  removed by \<^verbatim>\<open>String.prototype.trim\<close>: WhiteSpace and LineTerminator of ECMAScript.
\<close>

definition isWhiteSpace :: "16 word \<Rightarrow> bool" where
  "isWhiteSpace c \<longleftrightarrow>
     c = 0x09 \<or> c = 0x0A \<or> c = 0x0B \<or> c = 0x0C \<or> c = 0x0D \<or> c = 0x20 \<or>
     c = 0xA0 \<or> c = 0x1680 \<or> (0x2000 \<le> c \<and> c \<le> 0x200A) \<or>
     c = 0x2028 \<or> c = 0x2029 \<or> c = 0x202F \<or> c = 0x205F \<or> c = 0x3000 \<or> c = 0xFEFF"

text \<open>\<^verbatim>\<open>s.trim()\<close>\<close>

definition trim :: "jsstring \<Rightarrow> jsstring" where
  "trim s = rev (dropWhile isWhiteSpace (rev (dropWhile isWhiteSpace s)))"

text \<open>
  \<^verbatim>\<open>s.split(/\s+/)\<close>: the pieces between maximal runs of white space. A run at the
  start or at the end of the string leaves an empty piece there, and the empty string
  splits into one empty piece. \<open>splitFrom cur s\<close> carries the piece being read.
\<close>

function splitFrom :: "jsstring \<Rightarrow> jsstring \<Rightarrow> jsstring list" where
  "splitFrom cur [] = [cur]"
| "splitFrom cur (c # cs) =
     (if isWhiteSpace c then cur # splitFrom [] (dropWhile isWhiteSpace cs)
      else splitFrom (cur @ [c]) cs)"
  by pat_completeness auto
termination
  by (relation "measure (\<lambda>(cur, s). length s)")
     (auto simp: less_Suc_eq_le length_dropWhile_le)

definition splitWs :: "jsstring \<Rightarrow> jsstring list" where
  "splitWs s = splitFrom [] s"

text \<open>\<^verbatim>\<open>ws.join(" ")\<close>\<close>

fun joinSp :: "jsstring list \<Rightarrow> jsstring" where
  "joinSp [] = []"
| "joinSp [w] = w"
| "joinSp (w # v # ws) = w @ [0x20] @ joinSp (v # ws)"

text \<open>
  \<^verbatim>\<open>s.toLowerCase()\<close>. JavaScript follows the Unicode case tables. The model is exact
  on the code units up to 0x7F and on U+212A (KELVIN SIGN, whose lower case is the ASCII
  letter k); it leaves every other code unit unchanged, where the tables give a string
  that still holds a code unit above 0x7F. \<open>appendVerbatim\<close> only ever compares the
  result with the lower case of ASCII text, and on that comparison the two agree.
\<close>

definition lowerUnit :: "16 word \<Rightarrow> 16 word" where
  "lowerUnit c = (if 0x41 \<le> c \<and> c \<le> 0x5A then c + 0x20 else if c = 0x212A then 0x6B else c)"

definition toLowerCase :: "jsstring \<Rightarrow> jsstring" where
  "toLowerCase s = map lowerUnit s"

section \<open>The merge of the master-log variant\<close>

text \<open>
  The loop
  \<^verbatim>\<open>for (let i = maxOverlap; i > 0; i--) { ... if (masterTail === incomingHead) { overlapIndex = i; break; } }\<close>
  with \<open>None\<close> for the initial \<^verbatim>\<open>overlapIndex = -1\<close>.
\<close>

fun scanOverlap :: "nat \<Rightarrow> jsstring list \<Rightarrow> jsstring list \<Rightarrow> nat option" where
  "scanOverlap 0 masterWords incomingWords = None"
| "scanOverlap (Suc n) masterWords incomingWords =
     (let i = Suc n;
          masterTail = toLowerCase (joinSp (drop (length masterWords - i) masterWords));
          incomingHead = toLowerCase (joinSp (take i incomingWords))
      in if masterTail = incomingHead then Some i
         else scanOverlap n masterWords incomingWords)"

text \<open>\<^verbatim>\<open>s.replace(/[^\x00-\x7F]/g, "")\<close>\<close>

definition stripNonAscii :: "jsstring \<Rightarrow> jsstring" where
  "stripNonAscii s = filter (\<lambda>c. c \<le> 0x7F) s"

text \<open>\<^verbatim>\<open>s.split(/\s+/).filter(w => w.length > 0)\<close>\<close>

definition wordsOf :: "jsstring \<Rightarrow> jsstring list" where
  "wordsOf s = filter (\<lambda>w. length w > 0) (splitWs s)"

text \<open>
  \<^verbatim>\<open>appendVerbatim(master, incoming)\<close> of src/unnamed/part_003 (second file), branch by
  branch; \<^verbatim>\<open>!s\<close> on a string is \<open>s = []\<close>.
\<close>

definition appendVerbatim :: "jsstring \<Rightarrow> jsstring \<Rightarrow> jsstring" where
  "appendVerbatim master incoming =
     (if incoming = [] then master
      else let cleanedIncoming = trim (stripNonAscii incoming) in
        if cleanedIncoming = [] then master
        else let masterWords = wordsOf (trim master);
                 incomingWords = wordsOf cleanedIncoming in
          if length masterWords = 0 then cleanedIncoming
          else let maxOverlap = min (min (length masterWords) (length incomingWords)) 8 in
            (case scanOverlap maxOverlap masterWords incomingWords of
               Some overlapIndex \<Rightarrow>
                 (let uniqueIncoming = joinSp (drop overlapIndex incomingWords)
                  in if uniqueIncoming \<noteq> [] then trim (master @ [0x20] @ uniqueIncoming)
                     else master)
             | None \<Rightarrow> trim (master @ [0x20] @ cleanedIncoming)))"


section \<open>Application state (types.ts)\<close>

datatype status = Idle | Connecting | Listening | Error

text \<open>
  \<^verbatim>\<open>IdeaSnippet\<close>: the fields \<^verbatim>\<open>id\<close>, \<^verbatim>\<open>text\<close> and \<^verbatim>\<open>timestamp\<close>. The identifier comes
  from \<^verbatim>\<open>crypto.randomUUID()\<close> and the time from \<^verbatim>\<open>new Date()\<close>; the operations below
  take both as arguments.
\<close>

record IdeaSnippet =
  snippet_id :: jsstring
  snippet_text :: jsstring
  snippet_timestamp :: nat

record TranscriptionState =
  currentText :: jsstring
  history :: "IdeaSnippet list"
  isRecording :: bool
  status :: status

text \<open>
  Every variant of the component holds the React state and one or two refs with the text
  being transcribed. A functional update \<^verbatim>\<open>setState(prev => ...)\<close> is applied to the
  state in the order of the calls. The device and connection handles that
  \<^verbatim>\<open>cleanup()\<close> releases are left out: no operation below reads them.
\<close>

record component =
  state :: TranscriptionState

text \<open>src/unnamed/part_003, second file (the master log with \<open>appendVerbatim\<close>)\<close>

record masterLogApp = component +
  masterTranscriptRef :: jsstring

text \<open>src/unnamed/part_001\<close>

record turnApp = component +
  currentTranscriptionRef :: jsstring

text \<open>src/unnamed/part_003, first file\<close>

record ideaFlowApp = component +
  activeTranscriptionRef :: jsstring

text \<open>src/unnamed/part_000\<close>

record segmentApp = component +
  currentTurnText :: jsstring
  lastFinalizedText :: jsstring

text \<open>
  A message of the live connection, as the handlers read it:
  \<^verbatim>\<open>msg.serverContent?.inputTranscription\<close> (absent, or an object whose \<^verbatim>\<open>text\<close> may
  itself be absent) and \<^verbatim>\<open>msg.serverContent?.turnComplete\<close>. A message without
  \<^verbatim>\<open>serverContent\<close> has neither.
\<close>

record LiveServerMessage =
  inputTranscription :: "jsstring option option"
  turnComplete :: bool

text \<open>\<^verbatim>\<open>msg.serverContent?.inputTranscription?.text\<close>\<close>

definition transcriptionText :: "LiveServerMessage \<Rightarrow> jsstring option" where
  "transcriptionText msg = (case inputTranscription msg of None \<Rightarrow> None | Some t \<Rightarrow> t)"

definition mkSnippet :: "jsstring \<Rightarrow> nat \<Rightarrow> jsstring \<Rightarrow> IdeaSnippet" where
  "mkSnippet uuid now t = \<lparr>snippet_id = uuid, snippet_text = t, snippet_timestamp = now\<rparr>"

section \<open>The master-log variant (part_003, second file)\<close>

definition onmessage_log :: "masterLogApp \<Rightarrow> LiveServerMessage \<Rightarrow> masterLogApp" where
  "onmessage_log a msg =
     (case transcriptionText msg of
        None \<Rightarrow> a
      | Some incoming \<Rightarrow>
          if incoming = [] then a
          else let updated = appendVerbatim (masterTranscriptRef a) incoming in
            if updated \<noteq> masterTranscriptRef a
            then a\<lparr>masterTranscriptRef := updated,
                   state := (state a)\<lparr>currentText := updated\<rparr>\<rparr>
            else a)"

definition saveToHistory :: "jsstring \<Rightarrow> nat \<Rightarrow> masterLogApp \<Rightarrow> masterLogApp" where
  "saveToHistory uuid now a =
     (let finalTranscript = trim (masterTranscriptRef a);
          a1 = (if length finalTranscript > 0
                then a\<lparr>state := (state a)\<lparr>history := history (state a) @ [mkSnippet uuid now finalTranscript],
                                          currentText := []\<rparr>\<rparr>
                else a);
          a2 = a1\<lparr>masterTranscriptRef := []\<rparr>
      in a2\<lparr>state := (state a2)\<lparr>currentText := []\<rparr>\<rparr>)"

definition stopSession_log :: "jsstring \<Rightarrow> nat \<Rightarrow> masterLogApp \<Rightarrow> masterLogApp" where
  "stopSession_log uuid now a =
     (let a1 = saveToHistory uuid now a
      in a1\<lparr>state := (state a1)\<lparr>isRecording := False, status := Idle\<rparr>\<rparr>)"

definition onerror_log :: "jsstring \<Rightarrow> nat \<Rightarrow> masterLogApp \<Rightarrow> masterLogApp" where
  "onerror_log uuid now a =
     stopSession_log uuid now (a\<lparr>state := (state a)\<lparr>status := Error\<rparr>\<rparr>)"

section \<open>The per-turn variants\<close>

text \<open>part_001: \<^verbatim>\<open>finalizeTurn\<close>, \<^verbatim>\<open>stopSession\<close> and the message handler\<close>

definition finalizeTurn :: "jsstring \<Rightarrow> nat \<Rightarrow> turnApp \<Rightarrow> turnApp" where
  "finalizeTurn uuid now a =
     (let text = trim (currentTranscriptionRef a);
          a1 = (if length text > 2
                then a\<lparr>state := (state a)\<lparr>history := history (state a) @ [mkSnippet uuid now text],
                                          currentText := []\<rparr>\<rparr>
                else a);
          a2 = a1\<lparr>currentTranscriptionRef := []\<rparr>
      in a2\<lparr>state := (state a2)\<lparr>currentText := []\<rparr>\<rparr>)"

definition stopSession_turn :: "jsstring \<Rightarrow> nat \<Rightarrow> turnApp \<Rightarrow> turnApp" where
  "stopSession_turn uuid now a =
     (let a1 = finalizeTurn uuid now a
      in a1\<lparr>state := (state a1)\<lparr>isRecording := False, status := Idle\<rparr>\<rparr>)"

definition onmessage_turn :: "jsstring \<Rightarrow> nat \<Rightarrow> turnApp \<Rightarrow> LiveServerMessage \<Rightarrow> turnApp" where
  "onmessage_turn uuid now a msg =
     (let a1 = (case transcriptionText msg of
                  None \<Rightarrow> a
                | Some textDelta \<Rightarrow>
                    if textDelta = [] then a
                    else a\<lparr>currentTranscriptionRef := currentTranscriptionRef a @ textDelta,
                           state := (state a)\<lparr>currentText := currentTranscriptionRef a @ textDelta\<rparr>\<rparr>)
      in if turnComplete msg then finalizeTurn uuid now a1 else a1)"

text \<open>part_003, first file: \<^verbatim>\<open>saveSnippet\<close>\<close>

definition saveSnippet :: "jsstring \<Rightarrow> nat \<Rightarrow> ideaFlowApp \<Rightarrow> ideaFlowApp" where
  "saveSnippet uuid now a =
     (let text = trim (activeTranscriptionRef a);
          a1 = (if length text > 3
                then a\<lparr>state := (state a)\<lparr>history := history (state a) @ [mkSnippet uuid now text],
                                          currentText := []\<rparr>\<rparr>
                else a);
          a2 = a1\<lparr>activeTranscriptionRef := []\<rparr>
      in a2\<lparr>state := (state a2)\<lparr>currentText := []\<rparr>\<rparr>)"

text \<open>
  part_000: the message handler. The delta is appended whenever
  \<^verbatim>\<open>inputTranscription\<close> is present; appending an absent \<^verbatim>\<open>text\<close> appends the
  string \<^verbatim>\<open>undefined\<close>, as \<^verbatim>\<open>+=\<close> does.
\<close>

definition onmessage_segment :: "jsstring \<Rightarrow> nat \<Rightarrow> segmentApp \<Rightarrow> LiveServerMessage \<Rightarrow> segmentApp" where
  "onmessage_segment uuid now a message =
     (let a1 = (case inputTranscription message of
                  None \<Rightarrow> a
                | Some t \<Rightarrow>
                    (let textDelta = (case t of None \<Rightarrow> ascii ''undefined'' | Some d \<Rightarrow> d)
                     in a\<lparr>currentTurnText := currentTurnText a @ textDelta,
                          state := (state a)\<lparr>currentText := currentTurnText a @ textDelta\<rparr>\<rparr>))
      in if turnComplete message
         then (if trim (currentTurnText a1) \<noteq> []
               then (let textToSave = trim (currentTurnText a1)
                     in a1\<lparr>state := (state a1)\<lparr>history := history (state a1) @ [mkSnippet uuid now textToSave],
                                                currentText := []\<rparr>,
                            currentTurnText := []\<rparr>)
               else a1)
         else a1)"

text \<open>
  src/App.tsx: the message handler. The delta is appended as in part_000; the branch for
  \<^verbatim>\<open>turnComplete\<close> is empty.
\<close>

record sessionApp = component +
  transcriptionBuffer :: jsstring

definition onmessage_app :: "sessionApp \<Rightarrow> LiveServerMessage \<Rightarrow> sessionApp" where
  "onmessage_app a message =
     (let a1 = (case inputTranscription message of
                  None \<Rightarrow> a
                | Some t \<Rightarrow>
                    (let text = (case t of None \<Rightarrow> ascii ''undefined'' | Some d \<Rightarrow> d)
                     in a\<lparr>transcriptionBuffer := transcriptionBuffer a @ text,
                          state := (state a)\<lparr>currentText := transcriptionBuffer a @ text\<rparr>\<rparr>))
      in if turnComplete message then a1 else a1)"

section \<open>Words of a transcript\<close>

text \<open>
  The words that \<^verbatim>\<open>split(/\s+/).filter(w => w.length > 0)\<close> yields are never empty
  and hold no white space.
\<close>

definition properWord :: "jsstring \<Rightarrow> bool" where
  "properWord w \<longleftrightarrow> w \<noteq> [] \<and> list_all (\<lambda>c. \<not> isWhiteSpace c) w"

definition wordsFrom :: "jsstring \<Rightarrow> jsstring \<Rightarrow> jsstring list" where
  "wordsFrom cur s = filter (\<lambda>w. length w > 0) (splitFrom cur s)"

text \<open>The words of a delta after the ASCII filter and the trim.\<close>

definition incomingWordsOf :: "jsstring \<Rightarrow> jsstring list" where
  "incomingWordsOf incoming = wordsOf (trim (stripNonAscii incoming))"

text \<open>The candidate lengths of \<open>appendVerbatim\<close> start at \<^verbatim>\<open>maxOverlap\<close>.\<close>

definition overlapIndexOf :: "jsstring list \<Rightarrow> jsstring list \<Rightarrow> nat option" where
  "overlapIndexOf masterWords incomingWords =
     scanOverlap (min (min (length masterWords) (length incomingWords)) 8) masterWords incomingWords"

text \<open>What \<open>appendVerbatim\<close> does, read on the words of the two texts.\<close>

definition mergeWords :: "jsstring list \<Rightarrow> jsstring list \<Rightarrow> jsstring list" where
  "mergeWords masterWords incomingWords =
     (if masterWords = [] then incomingWords
      else case overlapIndexOf masterWords incomingWords of
             Some overlapIndex \<Rightarrow> masterWords @ drop overlapIndex incomingWords
           | None \<Rightarrow> masterWords @ incomingWords)"

text \<open>
  The overlap rule in the words of the specification: a suffix of \<open>committed\<close> of
  length \<open>L\<close> equals, word by word and ignoring case, a prefix of the incoming words; the
  lengths are tried from the window \<open>K\<close> down to 1 and the first match is taken.
\<close>

definition overlapAt :: "nat \<Rightarrow> jsstring list \<Rightarrow> jsstring list \<Rightarrow> bool" where
  "overlapAt L committed incoming \<longleftrightarrow>
     L \<le> length committed \<and> L \<le> length incoming \<and>
     map toLowerCase (drop (length committed - L) committed) = map toLowerCase (take L incoming)"

definition longestOverlap :: "nat \<Rightarrow> jsstring list \<Rightarrow> jsstring list \<Rightarrow> nat option" where
  "longestOverlap K committed incoming =
     find (\<lambda>L. overlapAt L committed incoming) (rev [1..<Suc K])"

text \<open>A text without white space at either end.\<close>

definition noEdgeWhiteSpace :: "jsstring \<Rightarrow> bool" where
  "noEdgeWhiteSpace s =
     (case s of [] \<Rightarrow> True | c # cs \<Rightarrow> \<not> isWhiteSpace c \<and> \<not> isWhiteSpace (last s))"

definition isAscii :: "jsstring \<Rightarrow> bool" where
  "isAscii s = list_all (\<lambda>c. c \<le> 0x7F) s"

section \<open>Tokenising\<close>

lemma wordsOf_wordsFrom: "wordsOf s = wordsFrom [] s"
  by (simp add: wordsOf_def wordsFrom_def splitWs_def)

lemma wordsFrom_Nil: "wordsFrom cur [] = (if cur = [] then [] else [cur])"
  by (simp add: wordsFrom_def)

lemma wordsFrom_dropWhile:
  "wordsFrom [] (dropWhile isWhiteSpace s) = wordsFrom [] s"
  by (induction s) (simp_all add: wordsFrom_def)

lemma wordsFrom_white:
  "isWhiteSpace c \<Longrightarrow> wordsFrom cur (c # s) = (if cur = [] then [] else [cur]) @ wordsFrom [] s"
  using wordsFrom_dropWhile [of s] by (simp add: wordsFrom_def)

lemma wordsFrom_black:
  "\<not> isWhiteSpace c \<Longrightarrow> wordsFrom cur (c # s) = wordsFrom (cur @ [c]) s"
  by (simp add: wordsFrom_def)

lemma wordsFrom_append:
  "isWhiteSpace sp \<Longrightarrow> wordsFrom cur (a @ sp # b) = wordsFrom cur a @ wordsFrom [] b"
proof (induction a arbitrary: cur)
  case Nil
  then show ?case by (simp add: wordsFrom_white wordsFrom_Nil)
next
  case (Cons c a)
  show ?case
  proof (cases "isWhiteSpace c")
    case True
    then show ?thesis using Cons by (simp add: wordsFrom_white)
  next
    case False
    then show ?thesis using Cons by (simp add: wordsFrom_black)
  qed
qed

lemma wordsFrom_word:
  "list_all (\<lambda>c. \<not> isWhiteSpace c) w \<Longrightarrow> wordsFrom cur (w @ s) = wordsFrom (cur @ w) s"
  by (induction w arbitrary: cur) (simp_all add: wordsFrom_black)

lemma wordsOf_append:
  "isWhiteSpace sp \<Longrightarrow> wordsOf (a @ sp # b) = wordsOf a @ wordsOf b"
  by (simp add: wordsOf_wordsFrom wordsFrom_append)

lemma wordsOf_dropWhile: "wordsOf (dropWhile isWhiteSpace s) = wordsOf s"
  by (simp add: wordsOf_wordsFrom wordsFrom_dropWhile)

lemma wordsOf_Nil: "wordsOf [] = []"
  by (simp add: wordsOf_wordsFrom wordsFrom_Nil)

lemma wordsOf_dropWhile_end:
  "wordsOf (rev (dropWhile isWhiteSpace (rev s))) = wordsOf s"
proof (induction s rule: rev_induct)
  case Nil
  then show ?case by simp
next
  case (snoc c s)
  show ?case
  proof (cases "isWhiteSpace c")
    case True
    have "wordsOf (s @ [c]) = wordsOf s"
      using wordsOf_append [OF True, of s "[]"] by (simp add: wordsOf_Nil)
    with True snoc show ?thesis by simp
  next
    case False
    then show ?thesis by simp
  qed
qed

lemma wordsOf_trim: "wordsOf (trim s) = wordsOf s"
  by (simp add: trim_def wordsOf_dropWhile_end wordsOf_dropWhile)

lemma wordsFrom_proper:
  "list_all (\<lambda>c. \<not> isWhiteSpace c) cur \<Longrightarrow> list_all properWord (wordsFrom cur s)"
proof (induction cur s rule: splitFrom.induct)
  case (1 cur)
  then show ?case by (simp add: wordsFrom_Nil properWord_def)
next
  case (2 cur c cs)
  show ?case
  proof (cases "isWhiteSpace c")
    case True
    have "list_all properWord (wordsFrom [] (dropWhile isWhiteSpace cs))"
      using 2(1) [OF True] by simp
    moreover have "cur \<noteq> [] \<Longrightarrow> properWord cur"
      using 2(3) by (simp add: properWord_def)
    ultimately show ?thesis using True
      by (simp add: wordsFrom_white wordsFrom_dropWhile)
  next
    case False
    then show ?thesis using 2 by (simp add: wordsFrom_black)
  qed
qed

lemma wordsOf_proper: "list_all properWord (wordsOf s)"
  by (simp add: wordsOf_wordsFrom wordsFrom_proper)

lemma isWhiteSpace_space: "isWhiteSpace 0x20"
  by (simp add: isWhiteSpace_def)

lemma wordsOf_joinSp: "list_all properWord ws \<Longrightarrow> wordsOf (joinSp ws) = ws"
proof (induction ws rule: joinSp.induct)
  case 1
  then show ?case by (simp add: wordsOf_Nil)
next
  case (2 w)
  then show ?case
    using wordsFrom_word [of w "[]" "[]"]
    by (simp add: wordsOf_wordsFrom wordsFrom_Nil properWord_def)
next
  case (3 w v ws)
  have "wordsOf (w @ 0x20 # joinSp (v # ws)) = wordsOf w @ wordsOf (joinSp (v # ws))"
    by (rule wordsOf_append [OF isWhiteSpace_space])
  moreover have "wordsOf w = [w]"
    using 3(2) wordsFrom_word [of w "[]" "[]"]
    by (simp add: wordsOf_wordsFrom wordsFrom_Nil properWord_def)
  ultimately show ?case using 3 by simp
qed

section \<open>The merge on words\<close>

lemma joinSp_Nil_iff: "list_all properWord ws \<Longrightarrow> joinSp ws = [] \<longleftrightarrow> ws = []"
  using wordsOf_joinSp [of ws] by (auto simp: wordsOf_Nil)

lemma incomingWordsOf_proper: "list_all properWord (incomingWordsOf d)"
  by (simp add: incomingWordsOf_def wordsOf_proper)

lemma appendVerbatim_words:
  "wordsOf (appendVerbatim master incoming) = mergeWords (wordsOf master) (incomingWordsOf incoming)"
proof -
  let ?c = "trim (stripNonAscii incoming)"
  let ?iw = "incomingWordsOf incoming"
  let ?mw = "wordsOf master"
  have iw: "wordsOf ?c = ?iw" by (simp add: incomingWordsOf_def)
  have sp: "\<And>t. wordsOf (trim (master @ [0x20] @ t)) = ?mw @ wordsOf t"
    using wordsOf_append [OF isWhiteSpace_space] by (simp add: wordsOf_trim)
  show ?thesis
  proof (cases "incoming = [] \<or> ?c = []")
    case True
    then have "?c = []" by (auto simp: stripNonAscii_def trim_def)
    then have "?iw = []" using iw by (simp add: wordsOf_Nil)
    moreover have "appendVerbatim master incoming = master"
      using True by (auto simp: appendVerbatim_def)
    ultimately show ?thesis
      by (simp add: mergeWords_def overlapIndexOf_def)
  next
    case False
    show ?thesis
    proof (cases "?mw = []")
      case True
      then show ?thesis using False iw
        by (simp add: appendVerbatim_def mergeWords_def wordsOf_trim)
    next
      case mw: False
      show ?thesis
      proof (cases "overlapIndexOf ?mw ?iw")
        case None
        then show ?thesis using False mw iw sp [of ?c]
          by (simp add: appendVerbatim_def mergeWords_def wordsOf_trim overlapIndexOf_def)
      next
        case (Some L)
        have pr: "list_all properWord (drop L ?iw)"
          using incomingWordsOf_proper [of incoming]
          by (metis append_take_drop_id list_all_append)
        show ?thesis
        proof (cases "joinSp (drop L ?iw) = []")
          case True
          then have "drop L ?iw = []" using pr joinSp_Nil_iff by blast
          then show ?thesis using False mw iw Some True
            by (simp add: appendVerbatim_def mergeWords_def wordsOf_trim overlapIndexOf_def Let_def)
        next
          case nonempty: False
          then show ?thesis using False mw iw Some sp [of "joinSp (drop L ?iw)"] wordsOf_joinSp [OF pr]
            by (simp add: appendVerbatim_def mergeWords_def wordsOf_trim overlapIndexOf_def Let_def)
        qed
      qed
    qed
  qed
qed

section \<open>The overlap search\<close>

lemma lowerUnit_space: "lowerUnit 0x20 = 0x20"
  by (simp add: lowerUnit_def)

lemma letter_not_white:
  fixes c :: "16 word"
  assumes "65 \<le> unat c" and "unat c \<le> 122"
  shows "\<not> isWhiteSpace c"
  using assms by (auto simp: isWhiteSpace_def word_unat_eq_iff word_le_nat_alt)

lemma isWhiteSpace_lowerUnit: "isWhiteSpace (lowerUnit c) \<longleftrightarrow> isWhiteSpace c"
proof (cases "0x41 \<le> c \<and> c \<le> 0x5A")
  case True
  then have u: "65 \<le> unat c" "unat c \<le> 90"
    by (simp_all add: word_le_nat_alt)
  then have "unat (c + 0x20) = unat c + 32"
    by (simp add: unat_word_ariths)
  then have "\<not> isWhiteSpace (c + 0x20)"
    using u by (intro letter_not_white) simp_all
  moreover have "\<not> isWhiteSpace c"
    using u by (intro letter_not_white) simp_all
  ultimately show ?thesis using True by (simp add: lowerUnit_def)
next
  case False
  then show ?thesis by (auto simp: lowerUnit_def isWhiteSpace_def)
qed

lemma toLowerCase_joinSp: "toLowerCase (joinSp ws) = joinSp (map toLowerCase ws)"
  by (induction ws rule: joinSp.induct) (simp_all add: toLowerCase_def lowerUnit_space)

lemma properWord_toLowerCase: "properWord w \<Longrightarrow> properWord (toLowerCase w)"
  by (simp add: properWord_def toLowerCase_def list_all_iff isWhiteSpace_lowerUnit)

lemma proper_map_toLowerCase:
  "list_all properWord ws \<Longrightarrow> list_all properWord (map toLowerCase ws)"
  by (simp add: list_all_iff properWord_toLowerCase)

lemma joined_lower_eq_iff:
  assumes "list_all properWord a" and "list_all properWord b"
  shows "toLowerCase (joinSp a) = toLowerCase (joinSp b) \<longleftrightarrow> map toLowerCase a = map toLowerCase b"
proof
  assume "toLowerCase (joinSp a) = toLowerCase (joinSp b)"
  then have "wordsOf (joinSp (map toLowerCase a)) = wordsOf (joinSp (map toLowerCase b))"
    by (simp add: toLowerCase_joinSp)
  then show "map toLowerCase a = map toLowerCase b"
    using assms by (simp add: wordsOf_joinSp proper_map_toLowerCase)
next
  assume "map toLowerCase a = map toLowerCase b"
  then show "toLowerCase (joinSp a) = toLowerCase (joinSp b)"
    by (simp add: toLowerCase_joinSp)
qed

lemma proper_drop: "list_all properWord ws \<Longrightarrow> list_all properWord (drop n ws)"
  by (metis append_take_drop_id list_all_append)

lemma proper_take: "list_all properWord ws \<Longrightarrow> list_all properWord (take n ws)"
  by (metis append_take_drop_id list_all_append)

lemma scanOverlap_range:
  "scanOverlap n mw iw = Some L \<Longrightarrow> 1 \<le> L \<and> L \<le> n"
  by (induction n) (auto simp: Let_def split: if_splits)

lemma scanOverlap_find:
  assumes "list_all properWord mw" and "list_all properWord iw"
    and "n \<le> length mw" and "n \<le> length iw"
  shows "scanOverlap n mw iw = find (\<lambda>L. overlapAt L mw iw) (rev [1..<Suc n])"
  using assms(3,4)
proof (induction n)
  case 0
  then show ?case by simp
next
  case (Suc n)
  have "toLowerCase (joinSp (drop (length mw - Suc n) mw)) = toLowerCase (joinSp (take (Suc n) iw))
          \<longleftrightarrow> overlapAt (Suc n) mw iw"
    using Suc.prems joined_lower_eq_iff [OF proper_drop [OF assms(1)] proper_take [OF assms(2)]]
    by (simp add: overlapAt_def)
  then show ?case using Suc by (simp add: Let_def)
qed

lemma find_beyond:
  assumes "\<And>L. P L \<Longrightarrow> L \<le> n" and "n \<le> K"
  shows "find P (rev [1..<Suc K]) = find P (rev [1..<Suc n])"
  using assms(2)
proof (induction K)
  case 0
  then show ?case by simp
next
  case (Suc K)
  show ?case
  proof (cases "n = Suc K")
    case True
    then show ?thesis by simp
  next
    case False
    then have "n \<le> K" using Suc.prems by simp
    moreover have "\<not> P (Suc K)" using assms(1) [of "Suc K"] False Suc.prems by auto
    ultimately show ?thesis using Suc.IH by simp
  qed
qed

lemma overlapIndexOf_longest:
  assumes "list_all properWord mw" and "list_all properWord iw"
  shows "overlapIndexOf mw iw = longestOverlap 8 mw iw"
proof -
  let ?n = "min (min (length mw) (length iw)) 8"
  have "overlapIndexOf mw iw = find (\<lambda>L. overlapAt L mw iw) (rev [1..<Suc ?n])"
    unfolding overlapIndexOf_def by (rule scanOverlap_find [OF assms]) simp_all
  also have "\<dots> = find (\<lambda>L. overlapAt L mw iw) (rev [1..<Suc 8])"
  proof (cases "length mw \<le> 8 \<or> length iw \<le> 8")
    case True
    have "find (\<lambda>L. overlapAt L mw iw) (rev [1..<Suc 8]) = find (\<lambda>L. overlapAt L mw iw) (rev [1..<Suc ?n])"
      by (rule find_beyond) (use True in \<open>auto simp: overlapAt_def\<close>)
    then show ?thesis by simp
  next
    case False
    then have "?n = 8" by simp
    then show ?thesis by simp
  qed
  finally show ?thesis by (simp add: longestOverlap_def)
qed

lemma scanOverlap_window:
  "n \<le> k \<Longrightarrow> scanOverlap n (drop (length mw - k) mw) (take k iw) = scanOverlap n mw iw"
proof (induction n)
  case 0
  then show ?case by simp
next
  case (Suc n)
  have "length (drop (length mw - k) mw) - Suc n + (length mw - k) = length mw - Suc n"
    using Suc.prems by simp
  then have "drop (length (drop (length mw - k) mw) - Suc n) (drop (length mw - k) mw) = drop (length mw - Suc n) mw"
    by (simp only: drop_drop)
  moreover have "take (Suc n) (take k iw) = take (Suc n) iw"
    using Suc.prems by (simp add: min_def)
  ultimately show ?case using Suc by (simp add: Let_def del: length_drop)
qed

lemma overlapIndexOf_window:
  "overlapIndexOf (drop (length mw - 8) mw) (take 8 iw) = overlapIndexOf mw iw"
proof -
  have "min (min (length (drop (length mw - 8) mw)) (length (take 8 iw))) 8 = min (min (length mw) (length iw)) 8"
    by auto
  then show ?thesis
    unfolding overlapIndexOf_def using scanOverlap_window [of "min (min (length mw) (length iw)) 8" 8 mw iw]
    by simp
qed

section \<open>The append-only invariant\<close>

lemma prefix_mergeWords: "prefix mw (mergeWords mw iw)"
  by (simp add: mergeWords_def split: option.split)

lemma appendVerbatim_prefix: "prefix (wordsOf master) (wordsOf (appendVerbatim master incoming))"
  by (simp add: appendVerbatim_words prefix_mergeWords)

lemma onmessage_log_master:
  "masterTranscriptRef (onmessage_log a msg) = masterTranscriptRef a \<or>
   (\<exists>incoming. masterTranscriptRef (onmessage_log a msg) = appendVerbatim (masterTranscriptRef a) incoming)"
  by (auto simp: onmessage_log_def Let_def split: option.split)

lemma onmessage_log_prefix:
  "prefix (wordsOf (masterTranscriptRef a)) (wordsOf (masterTranscriptRef (onmessage_log a msg)))"
  using onmessage_log_master [of a msg] appendVerbatim_prefix by auto

text \<open>
  Claim C3. Over any sequence of deltas the words of the committed text only grow at the
  end: the words held before are a prefix of the words held afterwards, so none is edited
  or removed and the word count never decreases. This holds for \<open>appendVerbatim\<close>
  applied repeatedly from any starting text, and for the message handler that stores its
  result in the master log.
\<close>

theorem append_only:
  "prefix (wordsOf master) (wordsOf (foldl appendVerbatim master deltas)) \<and>
   length (wordsOf master) \<le> length (wordsOf (foldl appendVerbatim master deltas)) \<and>
   prefix (wordsOf (masterTranscriptRef a)) (wordsOf (masterTranscriptRef (foldl onmessage_log a msgs))) \<and>
   length (wordsOf (masterTranscriptRef a)) \<le> length (wordsOf (masterTranscriptRef (foldl onmessage_log a msgs)))"
proof -
  have 1: "prefix (wordsOf master) (wordsOf (foldl appendVerbatim master deltas))"
  proof (induction deltas arbitrary: master)
    case Nil
    then show ?case by simp
  next
    case (Cons d ds)
    from appendVerbatim_prefix [of master d] Cons [of "appendVerbatim master d"]
    show ?case by (auto intro: prefix_order.trans)
  qed
  have 2: "prefix (wordsOf (masterTranscriptRef a)) (wordsOf (masterTranscriptRef (foldl onmessage_log a msgs)))"
  proof (induction msgs arbitrary: a)
    case Nil
    then show ?case by simp
  next
    case (Cons m ms)
    from onmessage_log_prefix [of a m] Cons [of "onmessage_log a m"]
    show ?case by (auto intro: prefix_order.trans)
  qed
  from 1 2 show ?thesis by (auto dest: prefix_length_le)
qed

subsection \<open>Reachable transcripts\<close>

lemma noEdgeWhiteSpaceI:
  "t \<noteq> [] \<Longrightarrow> \<not> isWhiteSpace (hd t) \<Longrightarrow> \<not> isWhiteSpace (last t) \<Longrightarrow> noEdgeWhiteSpace t"
  by (cases t) (auto simp: noEdgeWhiteSpace_def)

lemma trim_noEdge: "noEdgeWhiteSpace (trim s)"
proof -
  let ?d = "dropWhile isWhiteSpace s"
  let ?t = "rev (dropWhile isWhiteSpace (rev ?d))"
  show ?thesis
  proof (cases "?t = []")
    case True
    show ?thesis unfolding trim_def noEdgeWhiteSpace_def True by simp
  next
    case False
    then have ne: "dropWhile isWhiteSpace (rev ?d) \<noteq> []" by simp
    then have l: "\<not> isWhiteSpace (hd (dropWhile isWhiteSpace (rev ?d)))"
      by (rule hd_dropWhile)
    have "last ?t = hd (dropWhile isWhiteSpace (rev ?d))"
      using ne by (simp add: last_rev)
    then have la: "\<not> isWhiteSpace (last ?t)" using l by simp
    have "?d \<noteq> []"
    proof
      assume e: "?d = []"
      have "dropWhile isWhiteSpace (rev ?d) = []" unfolding e by simp
      with ne show False by contradiction
    qed
    then have hd: "\<not> isWhiteSpace (hd ?d)" by (rule hd_dropWhile)
    obtain k where k: "dropWhile isWhiteSpace (rev ?d) = drop k (rev ?d)"
      by (metis dropWhile_eq_drop)
    have "?t = take (length ?d - k) ?d"
      by (simp add: k rev_drop)
    then have "hd ?t = hd ?d" using False by (metis hd_take take_eq_Nil2 neq0_conv)
    with hd la False show ?thesis
      unfolding trim_def by (intro noEdgeWhiteSpaceI) simp_all
  qed
qed

lemma trim_subset: "set (trim s) \<subseteq> set s"
proof -
  have "set (trim s) \<subseteq> set (dropWhile isWhiteSpace s)"
    unfolding trim_def using set_dropWhileD by fastforce
  then show ?thesis using set_dropWhileD by fastforce
qed

lemma isAscii_trim: "isAscii s \<Longrightarrow> isAscii (trim s)"
  using trim_subset [of s] by (auto simp: isAscii_def list_all_iff)

lemma isAscii_strip: "isAscii (stripNonAscii s)"
  by (simp add: isAscii_def stripNonAscii_def list_all_iff)

lemma isAscii_append: "isAscii (a @ b) \<longleftrightarrow> isAscii a \<and> isAscii b"
  by (simp add: isAscii_def)

lemma isAscii_joinSp: "list_all isAscii ws \<Longrightarrow> isAscii (joinSp ws)"
  by (induction ws rule: joinSp.induct) (simp_all add: isAscii_def)

lemma splitFrom_subset:
  "w \<in> set (splitFrom cur s) \<Longrightarrow> set w \<subseteq> set cur \<union> set s"
proof (induction cur s rule: splitFrom.induct)
  case (1 cur)
  then show ?case by simp
next
  case (2 cur c cs)
  show ?case
  proof (cases "isWhiteSpace c")
    case True
    with 2(3) have "w = cur \<or> w \<in> set (splitFrom [] (dropWhile isWhiteSpace cs))" by simp
    then show ?thesis
    proof
      assume "w = cur" then show ?thesis by auto
    next
      assume "w \<in> set (splitFrom [] (dropWhile isWhiteSpace cs))"
      from 2(1) [OF True this] have "set w \<subseteq> set (dropWhile isWhiteSpace cs)" by simp
      then show ?thesis using set_dropWhileD by fastforce
    qed
  next
    case False
    with 2(3) have "w \<in> set (splitFrom (cur @ [c]) cs)" by simp
    from 2(2) [OF False this] show ?thesis by auto
  qed
qed

lemma isAscii_wordsOf: "isAscii s \<Longrightarrow> list_all isAscii (wordsOf s)"
  using splitFrom_subset [of _ "[]" s]
  by (fastforce simp: wordsOf_def splitWs_def isAscii_def list_all_iff)

lemma isAscii_space: "isAscii [0x20]"
  by (simp add: isAscii_def)

lemma appendVerbatim_invariant:
  assumes "isAscii master" and "noEdgeWhiteSpace master"
  shows "isAscii (appendVerbatim master incoming) \<and> noEdgeWhiteSpace (appendVerbatim master incoming)"
proof -
  let ?c = "trim (stripNonAscii incoming)"
  have c: "isAscii ?c" by (simp add: isAscii_trim isAscii_strip)
  have u: "isAscii (joinSp (drop L (wordsOf ?c)))" for L
  proof -
    have "list_all isAscii (wordsOf ?c)" using c by (rule isAscii_wordsOf)
    then have "list_all isAscii (drop L (wordsOf ?c))"
      by (metis append_take_drop_id list_all_append)
    then show ?thesis by (rule isAscii_joinSp)
  qed
  have t: "isAscii t \<Longrightarrow> isAscii (trim (master @ [0x20] @ t))" for t
    using assms(1) by (intro isAscii_trim) (simp add: isAscii_def)
  show ?thesis
    using assms c u t
    by (auto simp: appendVerbatim_def Let_def trim_noEdge split: option.split)
qed

text \<open>
  Claim C9. Every transcript reached from the empty string by applying
  \<open>appendVerbatim\<close> to any sequence of deltas holds only code units from 0 to 127 and
  has no white space at its start or at its end.
\<close>

theorem reachable_ascii_trimmed:
  "isAscii (foldl appendVerbatim [] deltas) \<and> noEdgeWhiteSpace (foldl appendVerbatim [] deltas)"
proof -
  have "isAscii (foldl appendVerbatim m deltas) \<and> noEdgeWhiteSpace (foldl appendVerbatim m deltas)"
    if "isAscii m" "noEdgeWhiteSpace m" for m
    using that
  proof (induction deltas arbitrary: m)
    case Nil
    then show ?case by simp
  next
    case (Cons d ds)
    then show ?case using appendVerbatim_invariant [of m d] by simp
  qed
  then show ?thesis by (simp add: isAscii_def noEdgeWhiteSpace_def)
qed

section \<open>Retransmission\<close>

lemma wordsFrom_nonempty: "cur \<noteq> [] \<Longrightarrow> wordsFrom cur s \<noteq> []"
  by (induction cur s rule: splitFrom.induct) (simp_all add: wordsFrom_def)

lemma trim_words_nonempty:
  assumes "trim s \<noteq> []"
  shows "wordsOf (trim s) \<noteq> []"
proof -
  obtain c cs where t: "trim s = c # cs" using assms by (cases "trim s") auto
  have "\<not> isWhiteSpace c"
    using trim_noEdge [of s] by (simp add: t noEdgeWhiteSpace_def)
  then have "wordsOf (trim s) = wordsFrom [c] cs"
    by (simp add: t wordsOf_wordsFrom wordsFrom_black)
  then show ?thesis by (simp add: wordsFrom_nonempty)
qed

lemma appendVerbatim_no_words:
  assumes "incomingWordsOf incoming = []"
  shows "appendVerbatim master incoming = master"
proof -
  have "trim (stripNonAscii incoming) = []"
    using assms trim_words_nonempty [of "stripNonAscii incoming"]
    unfolding incomingWordsOf_def by blast
  then show ?thesis by (simp add: appendVerbatim_def)
qed

lemma overlapIndexOf_Some:
  assumes "list_all properWord mw" and "list_all properWord iw"
    and "overlapIndexOf mw iw = Some L"
  shows "overlapAt L mw iw \<and> 1 \<le> L \<and> L \<le> 8"
proof -
  have "find (\<lambda>L. overlapAt L mw iw) (rev [1..<Suc 8]) = Some L"
    using assms overlapIndexOf_longest [of mw iw] by (simp add: longestOverlap_def)
  then have "overlapAt L mw iw \<and> L \<in> set (rev [1..<Suc 8])"
    by (metis find_Some_iff nth_mem)
  then show ?thesis by auto
qed

lemma mergeWords_tail:
  assumes "list_all properWord mw" and "list_all properWord iw"
  shows "length iw \<le> length (mergeWords mw iw) \<and>
         map toLowerCase (drop (length (mergeWords mw iw) - length iw) (mergeWords mw iw)) = map toLowerCase iw"
proof (cases "mw = []")
  case True
  then show ?thesis by (simp add: mergeWords_def)
next
  case False
  show ?thesis
  proof (cases "overlapIndexOf mw iw")
    case None
    then show ?thesis using False by (simp add: mergeWords_def)
  next
    case (Some L)
    from overlapIndexOf_Some [OF assms Some]
    have L: "L \<le> length mw" "L \<le> length iw"
      and eq: "map toLowerCase (drop (length mw - L) mw) = map toLowerCase (take L iw)"
      by (simp_all add: overlapAt_def)
    have m: "mergeWords mw iw = mw @ drop L iw"
      using False Some by (simp add: mergeWords_def)
    have len: "length (mergeWords mw iw) - length iw = length mw - L"
      using L by (simp add: m)
    have "map toLowerCase (drop (length mw - L) (mw @ drop L iw))
            = map toLowerCase (take L iw) @ map toLowerCase (drop L iw)"
      using L eq by simp
    also have "\<dots> = map toLowerCase iw"
      by (simp flip: map_append)
    finally show ?thesis using L by (simp add: len) (simp add: m)
  qed
qed

lemma scanOverlap_first:
  assumes "1 \<le> n"
    and "toLowerCase (joinSp (drop (length mw - n) mw)) = toLowerCase (joinSp (take n iw))"
  shows "scanOverlap n mw iw = Some n"
  using assms by (cases n) (simp_all add: Let_def)

lemma retransmission_idempotent:
  assumes "length (incomingWordsOf incoming) \<le> 8"
  shows "appendVerbatim (appendVerbatim master incoming) incoming = appendVerbatim master incoming"
proof (cases "incomingWordsOf incoming = []")
  case True
  then show ?thesis by (simp add: appendVerbatim_no_words)
next
  case False
  let ?iw = "incomingWordsOf incoming"
  let ?c = "trim (stripNonAscii incoming)"
  let ?M = "appendVerbatim master incoming"
  let ?W = "wordsOf ?M"
  let ?n = "length ?iw"
  have c1: "?c \<noteq> []"
  proof
    assume "?c = []"
    then have "?iw = []" unfolding incomingWordsOf_def by (simp only: wordsOf_Nil)
    with False show False by contradiction
  qed
  then have c2: "incoming \<noteq> []"
    by (auto simp: stripNonAscii_def trim_def)
  note c = c1 c2
  have W: "?W = mergeWords (wordsOf master) ?iw" by (rule appendVerbatim_words)
  have tail: "?n \<le> length ?W"
    "map toLowerCase (drop (length ?W - ?n) ?W) = map toLowerCase ?iw"
    using mergeWords_tail [of "wordsOf master" ?iw]
    by (simp_all add: W wordsOf_proper incomingWordsOf_proper)
  have "toLowerCase (joinSp (drop (length ?W - ?n) ?W)) = toLowerCase (joinSp (take ?n ?iw))"
    using tail(2) by (simp add: toLowerCase_joinSp)
  moreover have "1 \<le> ?n" using False by (simp add: Suc_le_eq)
  ultimately have scan: "scanOverlap ?n ?W ?iw = Some ?n" by (rule scanOverlap_first [rotated])
  have mx: "min (min (length ?W) ?n) 8 = ?n" using tail(1) assms by simp
  have ne: "?W \<noteq> []" using tail(1) False by auto
  have iw: "wordsOf (stripNonAscii incoming) = ?iw"
    by (simp add: incomingWordsOf_def wordsOf_trim)
  show ?thesis
    unfolding appendVerbatim_def [of ?M incoming]
    using c ne by (simp add: wordsOf_trim iw mx scan Let_def)
qed

section \<open>Overlap, retransmission and the window\<close>

text \<open>
  Claim C1, as the code has it. When the overlap search finds an overlap of \<open>L\<close> words
  between the end of the committed text and the start of the delta, the words of the
  result are the committed words followed by the words of the delta after the first
  \<open>L\<close>. Delivering the same delta a second time changes nothing when the delta has at
  most 8 words, whatever the committed text was. From the empty text, the deltas
  "the quick brown" and "the quick brown fox" give the words the, quick, brown, fox, and
  the deltas "I want to", "want to build", "build an app" give the transcript
  "I want to build an app".
\<close>

theorem overlap_appends_new_words:
  "(overlapIndexOf (wordsOf master) (incomingWordsOf incoming) = Some L \<longrightarrow>
      wordsOf (appendVerbatim master incoming) = wordsOf master @ drop L (incomingWordsOf incoming)) \<and>
   (length (incomingWordsOf incoming) \<le> 8 \<longrightarrow>
      appendVerbatim (appendVerbatim master incoming) incoming = appendVerbatim master incoming) \<and>
   wordsOf (foldl appendVerbatim [] [ascii ''the quick brown'', ascii ''the quick brown fox''])
     = [ascii ''the'', ascii ''quick'', ascii ''brown'', ascii ''fox''] \<and>
   foldl appendVerbatim [] [ascii ''I want to'', ascii ''want to build'', ascii ''build an app'']
     = ascii ''I want to build an app''"
proof -
  have 1: "wordsOf (appendVerbatim master incoming) = wordsOf master @ drop L (incomingWordsOf incoming)"
    if "overlapIndexOf (wordsOf master) (incomingWordsOf incoming) = Some L"
  proof -
    have "wordsOf master \<noteq> []"
      using that by (auto simp: overlapIndexOf_def)
    then show ?thesis using that by (simp add: appendVerbatim_words mergeWords_def)
  qed
  have 2: "wordsOf (foldl appendVerbatim [] [ascii ''the quick brown'', ascii ''the quick brown fox''])
     = [ascii ''the'', ascii ''quick'', ascii ''brown'', ascii ''fox'']"
    by code_simp
  have 3: "foldl appendVerbatim [] [ascii ''I want to'', ascii ''want to build'', ascii ''build an app'']
     = ascii ''I want to build an app''"
    by code_simp
  from 1 2 3 retransmission_idempotent show ?thesis by blast
qed

text \<open>
  The theorem at the committed text "the quick brown" and the delta
  "Quick BROWN fox jumps": the overlap found is 2 and the delta has 4 words.
\<close>

theorem overlap_appends_new_words_witness:
  "overlapIndexOf (wordsOf (ascii ''the quick brown'')) (incomingWordsOf (ascii ''Quick BROWN fox jumps'')) = Some 2 \<and>
   length (incomingWordsOf (ascii ''Quick BROWN fox jumps'')) \<le> 8 \<and>
   wordsOf (appendVerbatim (ascii ''the quick brown'') (ascii ''Quick BROWN fox jumps''))
     = wordsOf (ascii ''the quick brown'') @ drop 2 (incomingWordsOf (ascii ''Quick BROWN fox jumps'')) \<and>
   appendVerbatim (appendVerbatim (ascii ''the quick brown'') (ascii ''Quick BROWN fox jumps'')) (ascii ''Quick BROWN fox jumps'')
     = appendVerbatim (ascii ''the quick brown'') (ascii ''Quick BROWN fox jumps'')"
proof -
  have h1: "overlapIndexOf (wordsOf (ascii ''the quick brown'')) (incomingWordsOf (ascii ''Quick BROWN fox jumps'')) = Some 2"
    by code_simp
  have h2: "length (incomingWordsOf (ascii ''Quick BROWN fox jumps'')) \<le> 8"
    by code_simp
  from h1 h2 overlap_appends_new_words [of "ascii ''the quick brown''" "ascii ''Quick BROWN fox jumps''" 2]
  show ?thesis by blast
qed

text \<open>
  Claim C1 as stated fails for a delta of nine words: delivered twice from the empty text,
  its nine words are appended again, and the committed text goes from 9 to 18 words.
\<close>

theorem retransmission_counterexample:
  "appendVerbatim [] (ascii ''a b c d e f g h i'') = ascii ''a b c d e f g h i'' \<and>
   appendVerbatim (ascii ''a b c d e f g h i'') (ascii ''a b c d e f g h i'')
     = ascii ''a b c d e f g h i a b c d e f g h i'' \<and>
   length (wordsOf (ascii ''a b c d e f g h i'')) = 9 \<and>
   length (wordsOf (appendVerbatim (ascii ''a b c d e f g h i'') (ascii ''a b c d e f g h i''))) = 18"
  by code_simp

text \<open>
  Claim C2, as the code has it. The overlap that \<open>appendVerbatim\<close> finds is the one of
  the specification with the window K = 8: lengths are tried from 8 down to 1, the first
  match wins, and words are compared ignoring case. The search reads only the last 8
  words of the committed text and the first 8 words of the delta, and an overlap it
  reports is between 1 and 8 words long. An overlap longer than 8 words is therefore never
  reported in full: the search reports a shorter match of at most 8 words or none at all.
  At the boundary: an overlap of 8 words is found in full; an overlap of 9 different words
  is not found at all and the delta is appended whole; an overlap of 9 equal words is
  found as 8.
\<close>

theorem overlap_search_window:
  "overlapIndexOf (wordsOf master) (incomingWordsOf incoming)
     = longestOverlap 8 (wordsOf master) (incomingWordsOf incoming) \<and>
   overlapIndexOf mw iw = overlapIndexOf (drop (length mw - 8) mw) (take 8 iw) \<and>
   (overlapIndexOf mw iw = Some L \<longrightarrow> 1 \<le> L \<and> L \<le> 8 \<and> L \<le> length mw \<and> L \<le> length iw) \<and>
   (overlapAt L2 mw2 iw2 \<and> 8 < L2 \<longrightarrow>
      overlapIndexOf mw2 iw2 \<noteq> Some L2 \<and>
      (case overlapIndexOf mw2 iw2 of None \<Rightarrow> True | Some L3 \<Rightarrow> L3 \<le> 8)) \<and>
   appendVerbatim (ascii ''Hello World'') (ascii ''hello WORLD again'') = ascii ''Hello World again'' \<and>
   appendVerbatim (ascii ''a b c d e f g h'') (ascii ''a b c d e f g h i'') = ascii ''a b c d e f g h i'' \<and>
   overlapAt 9 (wordsOf (ascii ''a b c d e f g h i'')) (incomingWordsOf (ascii ''a b c d e f g h i j'')) \<and>
   overlapIndexOf (wordsOf (ascii ''a b c d e f g h i'')) (incomingWordsOf (ascii ''a b c d e f g h i j'')) = None \<and>
   appendVerbatim (ascii ''a b c d e f g h i'') (ascii ''a b c d e f g h i j'')
     = ascii ''a b c d e f g h i a b c d e f g h i j'' \<and>
   overlapAt 9 (wordsOf (ascii ''x x x x x x x x x'')) (incomingWordsOf (ascii ''x x x x x x x x x y'')) \<and>
   overlapIndexOf (wordsOf (ascii ''x x x x x x x x x'')) (incomingWordsOf (ascii ''x x x x x x x x x y'')) = Some 8 \<and>
   appendVerbatim (ascii ''x x x x x x x x x'') (ascii ''x x x x x x x x x y'')
     = ascii ''x x x x x x x x x x y''"
proof -
  have 1: "overlapIndexOf (wordsOf master) (incomingWordsOf incoming)
     = longestOverlap 8 (wordsOf master) (incomingWordsOf incoming)"
    by (rule overlapIndexOf_longest [OF wordsOf_proper incomingWordsOf_proper])
  have 2: "overlapIndexOf mw iw = overlapIndexOf (drop (length mw - 8) mw) (take 8 iw)"
    by (rule overlapIndexOf_window [symmetric])
  have 3: "1 \<le> K \<and> K \<le> 8 \<and> K \<le> length ms \<and> K \<le> length is"
    if "overlapIndexOf ms is = Some K" for ms "is" K
    using scanOverlap_range [OF that [unfolded overlapIndexOf_def]] by simp
  have 4: "overlapIndexOf mw2 iw2 \<noteq> Some L2 \<and>
      (case overlapIndexOf mw2 iw2 of None \<Rightarrow> True | Some L3 \<Rightarrow> L3 \<le> 8)"
    if "8 < L2"
    using that 3 [of mw2 iw2] by (cases "overlapIndexOf mw2 iw2") auto
  have 5: "appendVerbatim (ascii ''Hello World'') (ascii ''hello WORLD again'') = ascii ''Hello World again''"
    by code_simp
  have 6: "appendVerbatim (ascii ''a b c d e f g h'') (ascii ''a b c d e f g h i'') = ascii ''a b c d e f g h i''"
    by code_simp
  have 7: "overlapAt 9 (wordsOf (ascii ''a b c d e f g h i'')) (incomingWordsOf (ascii ''a b c d e f g h i j''))"
    by code_simp
  have 8: "overlapIndexOf (wordsOf (ascii ''a b c d e f g h i'')) (incomingWordsOf (ascii ''a b c d e f g h i j'')) = None"
    by code_simp
  have 9: "appendVerbatim (ascii ''a b c d e f g h i'') (ascii ''a b c d e f g h i j'')
     = ascii ''a b c d e f g h i a b c d e f g h i j''"
    by code_simp
  have 10: "overlapAt 9 (wordsOf (ascii ''x x x x x x x x x'')) (incomingWordsOf (ascii ''x x x x x x x x x y''))"
    by code_simp
  have 11: "overlapIndexOf (wordsOf (ascii ''x x x x x x x x x'')) (incomingWordsOf (ascii ''x x x x x x x x x y'')) = Some 8"
    by code_simp
  have 12: "appendVerbatim (ascii ''x x x x x x x x x'') (ascii ''x x x x x x x x x y'')
     = ascii ''x x x x x x x x x x y''"
    by code_simp
  from 1 2 3 [of mw iw L] 4 5 6 7 8 9 10 11 12 show ?thesis by blast
qed

text \<open>
  The theorem at the words one, Two, three and TWO, Three, four, where the overlap found
  is 2, and at nine equal words against the same nine followed by one more, where the
  overlap of 9 is reported as 8.
\<close>

theorem overlap_search_window_witness:
  "overlapIndexOf [ascii ''one'', ascii ''Two'', ascii ''three''] [ascii ''TWO'', ascii ''Three'', ascii ''four''] = Some 2 \<and>
   (2::nat) \<le> 8 \<and>
   2 \<le> length [ascii ''one'', ascii ''Two'', ascii ''three''] \<and>
   2 \<le> length [ascii ''TWO'', ascii ''Three'', ascii ''four''] \<and>
   overlapAt 9 (wordsOf (ascii ''x x x x x x x x x'')) (incomingWordsOf (ascii ''x x x x x x x x x y'')) \<and> (8::nat) < 9 \<and>
   overlapIndexOf (wordsOf (ascii ''x x x x x x x x x'')) (incomingWordsOf (ascii ''x x x x x x x x x y'')) \<noteq> Some 9"
proof -
  have h: "overlapIndexOf [ascii ''one'', ascii ''Two'', ascii ''three''] [ascii ''TWO'', ascii ''Three'', ascii ''four''] = Some 2"
    by code_simp
  have g: "overlapAt 9 (wordsOf (ascii ''x x x x x x x x x'')) (incomingWordsOf (ascii ''x x x x x x x x x y''))"
    by code_simp
  have k: "(8::nat) < 9" by simp
  from h g k
    overlap_search_window [of _ _ "[ascii ''one'', ascii ''Two'', ascii ''three'']"
      "[ascii ''TWO'', ascii ''Three'', ascii ''four'']" 2 9 "wordsOf (ascii ''x x x x x x x x x'')" "incomingWordsOf (ascii ''x x x x x x x x x y'')"]
  show ?thesis by blast
qed

text \<open>
  Claim C2 as stated fails in its last clause: the nine different words a to i at the end
  of the committed text are the first nine words of the delta, an overlap of 9, and the
  search reports no overlap at all, not a part of it; the result has 19 words.
\<close>

theorem long_overlap_counterexample:
  "overlapAt 9 (wordsOf (ascii ''a b c d e f g h i'')) (incomingWordsOf (ascii ''a b c d e f g h i j'')) \<and>
   overlapIndexOf (wordsOf (ascii ''a b c d e f g h i'')) (incomingWordsOf (ascii ''a b c d e f g h i j'')) = None \<and>
   length (wordsOf (ascii ''a b c d e f g h i'')) = 9 \<and>
   length (incomingWordsOf (ascii ''a b c d e f g h i j'')) = 10 \<and>
   length (wordsOf (appendVerbatim (ascii ''a b c d e f g h i'') (ascii ''a b c d e f g h i j''))) = 19"
  by code_simp

text \<open>
  Claim C4. When the overlap search finds nothing, every word of the delta is appended:
  the words of the result are the committed words followed by all the words of the
  delta. When both texts have words the result is the trimmed concatenation of the
  committed text, one space and the cleaned delta. From the empty text, the deltas
  "hello world" and "completely different" give the words hello, world, completely,
  different. The words of a delta are those left after the ASCII filter.
\<close>

theorem no_overlap_appends_all:
  "(overlapIndexOf (wordsOf master) (incomingWordsOf incoming) = None \<longrightarrow>
      wordsOf (appendVerbatim master incoming) = wordsOf master @ incomingWordsOf incoming) \<and>
   (overlapIndexOf (wordsOf master) (incomingWordsOf incoming) = None \<and>
    wordsOf master \<noteq> [] \<and> incomingWordsOf incoming \<noteq> [] \<longrightarrow>
      appendVerbatim master incoming = trim (master @ [0x20] @ trim (stripNonAscii incoming))) \<and>
   wordsOf (foldl appendVerbatim [] [ascii ''hello world'', ascii ''completely different''])
     = [ascii ''hello'', ascii ''world'', ascii ''completely'', ascii ''different'']"
proof -
  have 1: "wordsOf (appendVerbatim master incoming) = wordsOf master @ incomingWordsOf incoming"
    if "overlapIndexOf (wordsOf master) (incomingWordsOf incoming) = None"
    using that by (simp add: appendVerbatim_words mergeWords_def)
  have 2: "appendVerbatim master incoming = trim (master @ [0x20] @ trim (stripNonAscii incoming))"
    if n: "overlapIndexOf (wordsOf master) (incomingWordsOf incoming) = None"
      and m: "wordsOf master \<noteq> []" and i: "incomingWordsOf incoming \<noteq> []"
  proof -
    have c1: "trim (stripNonAscii incoming) \<noteq> []"
    proof
      assume "trim (stripNonAscii incoming) = []"
      then have "incomingWordsOf incoming = []"
        unfolding incomingWordsOf_def by (simp only: wordsOf_Nil)
      with i show False by contradiction
    qed
    then have c2: "incoming \<noteq> []" by (auto simp: stripNonAscii_def trim_def)
    have iw: "wordsOf (stripNonAscii incoming) = incomingWordsOf incoming"
      by (simp add: incomingWordsOf_def wordsOf_trim)
    show ?thesis
      unfolding appendVerbatim_def
      using c1 c2 m n [unfolded overlapIndexOf_def] by (simp add: wordsOf_trim iw Let_def)
  qed
  have 3: "wordsOf (foldl appendVerbatim [] [ascii ''hello world'', ascii ''completely different''])
     = [ascii ''hello'', ascii ''world'', ascii ''completely'', ascii ''different'']"
    by code_simp
  from 1 2 3 show ?thesis by blast
qed

text \<open>
  The theorem at the committed text "hello world" and the delta "completely different".
\<close>

theorem no_overlap_appends_all_witness:
  "overlapIndexOf (wordsOf (ascii ''hello world'')) (incomingWordsOf (ascii ''completely different'')) = None \<and>
   wordsOf (ascii ''hello world'') \<noteq> [] \<and> incomingWordsOf (ascii ''completely different'') \<noteq> [] \<and>
   wordsOf (appendVerbatim (ascii ''hello world'') (ascii ''completely different''))
     = wordsOf (ascii ''hello world'') @ incomingWordsOf (ascii ''completely different'') \<and>
   appendVerbatim (ascii ''hello world'') (ascii ''completely different'')
     = trim (ascii ''hello world'' @ [0x20] @ trim (stripNonAscii (ascii ''completely different'')))"
proof -
  have h1: "overlapIndexOf (wordsOf (ascii ''hello world'')) (incomingWordsOf (ascii ''completely different'')) = None"
    by code_simp
  have h2: "wordsOf (ascii ''hello world'') \<noteq> []" by code_simp
  have h3: "incomingWordsOf (ascii ''completely different'') \<noteq> []" by code_simp
  from h1 h2 h3 no_overlap_appends_all [of "ascii ''hello world''" "ascii ''completely different''"]
  show ?thesis by blast
qed

section \<open>Stop, error and turn completion\<close>

text \<open>
  Claim C5, as the code has it. In the master-log variant, stopping with a committed text
  that is not empty after trimming appends exactly one snippet, whose text is the trimmed
  committed text. In the variant of part_001 the same holds when the trimmed text is
  longer than 2 code units. Both leave the buffer empty in every case.
\<close>

theorem stop_flush:
  "(trim (masterTranscriptRef a) \<noteq> [] \<longrightarrow>
      history (state (stopSession_log uuid now a))
        = history (state a) @ [mkSnippet uuid now (trim (masterTranscriptRef a))]) \<and>
   masterTranscriptRef (stopSession_log uuid now a) = [] \<and>
   (2 < length (trim (currentTranscriptionRef b)) \<longrightarrow>
      history (state (stopSession_turn uuid now b))
        = history (state b) @ [mkSnippet uuid now (trim (currentTranscriptionRef b))]) \<and>
   currentTranscriptionRef (stopSession_turn uuid now b) = []"
  by (simp add: stopSession_log_def saveToHistory_def stopSession_turn_def finalizeTurn_def Let_def)

text \<open>
  The theorem at the committed text "ok" for the master log and at " hello " for
  part_001.
\<close>

theorem stop_flush_witness:
  "trim (masterTranscriptRef
      \<lparr>state = \<lparr>currentText = ascii ''ok'', history = [], isRecording = True, status = Listening\<rparr>,
       masterTranscriptRef = ascii ''ok''\<rparr>) \<noteq> [] \<and>
   history (state (stopSession_log (ascii ''id-1'') 7
      \<lparr>state = \<lparr>currentText = ascii ''ok'', history = [], isRecording = True, status = Listening\<rparr>,
       masterTranscriptRef = ascii ''ok''\<rparr>))
     = [mkSnippet (ascii ''id-1'') 7 (ascii ''ok'')] \<and>
   2 < length (trim (currentTranscriptionRef
      \<lparr>state = \<lparr>currentText = ascii '' hello '', history = [], isRecording = True, status = Listening\<rparr>,
       currentTranscriptionRef = ascii '' hello ''\<rparr>)) \<and>
   history (state (stopSession_turn (ascii ''id-1'') 7
      \<lparr>state = \<lparr>currentText = ascii '' hello '', history = [], isRecording = True, status = Listening\<rparr>,
       currentTranscriptionRef = ascii '' hello ''\<rparr>))
     = [mkSnippet (ascii ''id-1'') 7 (ascii ''hello'')]"
proof -
  let ?a = "\<lparr>state = \<lparr>currentText = ascii ''ok'', history = [], isRecording = True, status = Listening\<rparr>,
       masterTranscriptRef = ascii ''ok''\<rparr>"
  let ?b = "\<lparr>state = \<lparr>currentText = ascii '' hello '', history = [], isRecording = True, status = Listening\<rparr>,
       currentTranscriptionRef = ascii '' hello ''\<rparr>"
  have t1: "trim (ascii ''ok'') = ascii ''ok''" by code_simp
  have t2: "trim (ascii '' hello '') = ascii ''hello''" by code_simp
  have h1: "trim (masterTranscriptRef ?a) \<noteq> []" by (simp add: t1) (simp add: ascii_def)
  have h2: "2 < length (trim (currentTranscriptionRef ?b))" by (simp add: t2) (simp add: ascii_def)
  from h1 h2 stop_flush [of ?a "ascii ''id-1''" 7 ?b]
  show ?thesis by (simp add: t1 t2)
qed

text \<open>
  Claim C5 as stated fails in part_001: the buffer "ok" is not empty after trimming, and
  stopping emits no snippet.
\<close>

theorem stop_flush_counterexample:
  "trim (ascii ''ok'') \<noteq> [] \<and>
   history (state (stopSession_turn (ascii ''id-1'') 7
      \<lparr>state = \<lparr>currentText = ascii ''ok'', history = [], isRecording = True, status = Listening\<rparr>,
       currentTranscriptionRef = ascii ''ok''\<rparr>)) = []"
proof -
  have t1: "trim (ascii ''ok'') = ascii ''ok''" by code_simp
  show ?thesis
    by (simp add: stopSession_turn_def finalizeTurn_def Let_def t1) (simp add: ascii_def)
qed

text \<open>
  Claim C6 says that the session ends in the Error status after an error event. The
  handler sets the status to Error and then calls \<^verbatim>\<open>stopSession\<close>, whose own update sets
  it to Idle: after the handler the status is Idle, for every state. The pending text is
  flushed on the way: from the master log "hello world" the history holds its snippet.
\<close>

theorem onerror_ends_idle:
  "status (state (onerror_log uuid now a)) = Idle \<and>
   status (state (onerror_log (ascii ''id-1'') 7
      \<lparr>state = \<lparr>currentText = ascii ''hello world'', history = [], isRecording = True, status = Listening\<rparr>,
       masterTranscriptRef = ascii ''hello world''\<rparr>)) \<noteq> Error \<and>
   history (state (onerror_log (ascii ''id-1'') 7
      \<lparr>state = \<lparr>currentText = ascii ''hello world'', history = [], isRecording = True, status = Listening\<rparr>,
       masterTranscriptRef = ascii ''hello world''\<rparr>))
     = [mkSnippet (ascii ''id-1'') 7 (ascii ''hello world'')]"
proof -
  have t: "trim (ascii ''hello world'') = ascii ''hello world''" by code_simp
  have n: "ascii ''hello world'' \<noteq> []" by (simp add: ascii_def)
  show ?thesis
    by (simp add: onerror_log_def stopSession_log_def saveToHistory_def Let_def t n)
qed

text \<open>
  Claim C7, as the code has it. In part_000 a turn-complete signal received while the
  accumulated text is not empty after trimming appends a snippet with the trimmed text
  and clears the turn buffer. In part_001 the same holds when the trimmed text is longer
  than 2 code units. The accumulated text is the buffer after the delta of the same
  message, if any. The handler of App.tsx ignores the signal: it never changes the
  history, and its buffer after a message is the buffer before followed by the delta of
  the message, so the text is kept and goes on accumulating.
\<close>

theorem turn_complete_snippet:
  "(turnComplete msg \<and>
    trim (currentTurnText (onmessage_segment uuid now a (msg\<lparr>turnComplete := False\<rparr>))) \<noteq> [] \<longrightarrow>
      history (state (onmessage_segment uuid now a msg))
        = history (state a) @
          [mkSnippet uuid now (trim (currentTurnText (onmessage_segment uuid now a (msg\<lparr>turnComplete := False\<rparr>))))] \<and>
      currentTurnText (onmessage_segment uuid now a msg) = [] \<and>
      currentText (state (onmessage_segment uuid now a msg)) = []) \<and>
   (turnComplete msg \<and>
    2 < length (trim (currentTranscriptionRef (onmessage_turn uuid now b (msg\<lparr>turnComplete := False\<rparr>)))) \<longrightarrow>
      history (state (onmessage_turn uuid now b msg))
        = history (state b) @
          [mkSnippet uuid now (trim (currentTranscriptionRef (onmessage_turn uuid now b (msg\<lparr>turnComplete := False\<rparr>))))] \<and>
      currentTranscriptionRef (onmessage_turn uuid now b msg) = [] \<and>
      currentText (state (onmessage_turn uuid now b msg)) = []) \<and>
   onmessage_app c msg = onmessage_app c (msg\<lparr>turnComplete := False\<rparr>) \<and>
   history (state (onmessage_app c msg)) = history (state c) \<and>
   transcriptionBuffer (onmessage_app c msg)
     = transcriptionBuffer c @
       (case inputTranscription msg of
          None \<Rightarrow> []
        | Some None \<Rightarrow> ascii ''undefined''
        | Some (Some d) \<Rightarrow> d)"
proof -
  have 1: "history (state (onmessage_segment uuid now a msg))
        = history (state a) @
          [mkSnippet uuid now (trim (currentTurnText (onmessage_segment uuid now a (msg\<lparr>turnComplete := False\<rparr>))))] \<and>
      currentTurnText (onmessage_segment uuid now a msg) = [] \<and>
      currentText (state (onmessage_segment uuid now a msg)) = []"
    if "turnComplete msg"
      and "trim (currentTurnText (onmessage_segment uuid now a (msg\<lparr>turnComplete := False\<rparr>))) \<noteq> []"
    using that
    by (cases "inputTranscription msg") (simp_all add: onmessage_segment_def Let_def)
  have 2: "history (state (onmessage_turn uuid now b msg))
        = history (state b) @
          [mkSnippet uuid now (trim (currentTranscriptionRef (onmessage_turn uuid now b (msg\<lparr>turnComplete := False\<rparr>))))] \<and>
      currentTranscriptionRef (onmessage_turn uuid now b msg) = [] \<and>
      currentText (state (onmessage_turn uuid now b msg)) = []"
    if "turnComplete msg"
      and "2 < length (trim (currentTranscriptionRef (onmessage_turn uuid now b (msg\<lparr>turnComplete := False\<rparr>))))"
    using that
    by (cases "transcriptionText msg")
       (simp_all add: onmessage_turn_def finalizeTurn_def transcriptionText_def Let_def)
  have 3: "onmessage_app c msg = onmessage_app c (msg\<lparr>turnComplete := False\<rparr>)"
    by (simp add: onmessage_app_def)
  have 4: "history (state (onmessage_app c msg)) = history (state c)"
    by (simp add: onmessage_app_def Let_def split: option.split)
  have 5: "transcriptionBuffer (onmessage_app c msg)
     = transcriptionBuffer c @
       (case inputTranscription msg of
          None \<Rightarrow> []
        | Some None \<Rightarrow> ascii ''undefined''
        | Some (Some d) \<Rightarrow> d)"
    by (simp add: onmessage_app_def Let_def split: option.split)
  from 1 2 3 4 5 show ?thesis by blast
qed

text \<open>
  The theorem at the buffer "hi" and a message with the delta " there " and the
  turn-complete signal.
\<close>

theorem turn_complete_snippet_witness:
  "turnComplete \<lparr>inputTranscription = Some (Some (ascii '' there '')), turnComplete = True\<rparr> \<and>
   trim (currentTurnText (onmessage_segment (ascii ''id-2'') 9
      \<lparr>state = \<lparr>currentText = ascii ''hi'', history = [], isRecording = True, status = Listening\<rparr>,
       currentTurnText = ascii ''hi'', lastFinalizedText = []\<rparr>
      (\<lparr>inputTranscription = Some (Some (ascii '' there '')), turnComplete = True\<rparr>\<lparr>turnComplete := False\<rparr>))) \<noteq> [] \<and>
   history (state (onmessage_segment (ascii ''id-2'') 9
      \<lparr>state = \<lparr>currentText = ascii ''hi'', history = [], isRecording = True, status = Listening\<rparr>,
       currentTurnText = ascii ''hi'', lastFinalizedText = []\<rparr>
      \<lparr>inputTranscription = Some (Some (ascii '' there '')), turnComplete = True\<rparr>))
     = [mkSnippet (ascii ''id-2'') 9 (ascii ''hi there'')] \<and>
   2 < length (trim (currentTranscriptionRef (onmessage_turn (ascii ''id-2'') 9
      \<lparr>state = \<lparr>currentText = ascii ''hi'', history = [], isRecording = True, status = Listening\<rparr>,
       currentTranscriptionRef = ascii ''hi''\<rparr>
      (\<lparr>inputTranscription = Some (Some (ascii '' there '')), turnComplete = True\<rparr>\<lparr>turnComplete := False\<rparr>)))) \<and>
   history (state (onmessage_turn (ascii ''id-2'') 9
      \<lparr>state = \<lparr>currentText = ascii ''hi'', history = [], isRecording = True, status = Listening\<rparr>,
       currentTranscriptionRef = ascii ''hi''\<rparr>
      \<lparr>inputTranscription = Some (Some (ascii '' there '')), turnComplete = True\<rparr>))
     = [mkSnippet (ascii ''id-2'') 9 (ascii ''hi there'')]"
proof -
  let ?m = "\<lparr>inputTranscription = Some (Some (ascii '' there '')), turnComplete = True\<rparr>"
  let ?a = "\<lparr>state = \<lparr>currentText = ascii ''hi'', history = [], isRecording = True, status = Listening\<rparr>,
       currentTurnText = ascii ''hi'', lastFinalizedText = []\<rparr>"
  let ?b = "\<lparr>state = \<lparr>currentText = ascii ''hi'', history = [], isRecording = True, status = Listening\<rparr>,
       currentTranscriptionRef = ascii ''hi''\<rparr>"
  have t: "trim (ascii ''hi'' @ ascii '' there '') = ascii ''hi there''" by code_simp
  have n: "ascii '' there '' \<noteq> []" by (simp add: ascii_def)
  have l: "ascii ''hi there'' \<noteq> []" "2 < length (ascii ''hi there'')" by (simp_all add: ascii_def)
  have h1: "trim (currentTurnText (onmessage_segment (ascii ''id-2'') 9 ?a (?m\<lparr>turnComplete := False\<rparr>))) \<noteq> []"
    by (simp add: onmessage_segment_def Let_def t l)
  have h2: "2 < length (trim (currentTranscriptionRef (onmessage_turn (ascii ''id-2'') 9 ?b (?m\<lparr>turnComplete := False\<rparr>))))"
    by (simp add: onmessage_turn_def transcriptionText_def Let_def n t l)
  have e1: "trim (currentTurnText (onmessage_segment (ascii ''id-2'') 9 ?a (?m\<lparr>turnComplete := False\<rparr>))) = ascii ''hi there''"
    by (simp add: onmessage_segment_def Let_def t)
  have e2: "trim (currentTranscriptionRef (onmessage_turn (ascii ''id-2'') 9 ?b (?m\<lparr>turnComplete := False\<rparr>))) = ascii ''hi there''"
    by (simp add: onmessage_turn_def transcriptionText_def Let_def n t)
  from h1 h2 turn_complete_snippet [of ?m "ascii ''id-2''" 9 ?a ?b]
  show ?thesis unfolding e1 e2 by simp
qed

text \<open>
  Claim C7 as stated fails in part_001: with the buffer "ok" a turn-complete signal emits
  no snippet. It fails in App.tsx too: with the buffer "hello world" the signal emits no
  snippet and leaves the buffer as it was.
\<close>

theorem turn_complete_counterexample:
  "turnComplete \<lparr>inputTranscription = None, turnComplete = True\<rparr> \<and>
   trim (ascii ''ok'') \<noteq> [] \<and>
   history (state (onmessage_turn (ascii ''id-2'') 9
      \<lparr>state = \<lparr>currentText = ascii ''ok'', history = [], isRecording = True, status = Listening\<rparr>,
       currentTranscriptionRef = ascii ''ok''\<rparr>
      \<lparr>inputTranscription = None, turnComplete = True\<rparr>)) = [] \<and>
   trim (ascii ''hello world'') \<noteq> [] \<and>
   history (state (onmessage_app
      \<lparr>state = \<lparr>currentText = ascii ''hello world'', history = [], isRecording = True, status = Listening\<rparr>,
       transcriptionBuffer = ascii ''hello world''\<rparr>
      \<lparr>inputTranscription = None, turnComplete = True\<rparr>)) = [] \<and>
   transcriptionBuffer (onmessage_app
      \<lparr>state = \<lparr>currentText = ascii ''hello world'', history = [], isRecording = True, status = Listening\<rparr>,
       transcriptionBuffer = ascii ''hello world''\<rparr>
      \<lparr>inputTranscription = None, turnComplete = True\<rparr>) = ascii ''hello world''"
proof -
  have t1: "trim (ascii ''ok'') = ascii ''ok''" by code_simp
  have t2: "trim (ascii ''hello world'') = ascii ''hello world''" by code_simp
  have n: "ascii ''ok'' \<noteq> []" "ascii ''hello world'' \<noteq> []" "length (ascii ''ok'') = 2"
    by (simp_all add: ascii_def)
  show ?thesis
    by (simp add: onmessage_turn_def onmessage_app_def transcriptionText_def finalizeTurn_def
        Let_def t1 t2 n)
qed

text \<open>
  Claim C8. After \<^verbatim>\<open>finalizeTurn\<close> (part_001) and after \<^verbatim>\<open>saveSnippet\<close> (part_003) the
  buffer and the displayed text are empty, whatever they held. When the trimmed buffer
  has at most 2 code units (at most 3 for \<^verbatim>\<open>saveSnippet\<close>) the history is unchanged: the
  text is dropped and no snippet is emitted.
\<close>

theorem finalize_clears_buffer:
  "currentTranscriptionRef (finalizeTurn uuid now a) = [] \<and>
   currentText (state (finalizeTurn uuid now a)) = [] \<and>
   (length (trim (currentTranscriptionRef a)) \<le> 2 \<longrightarrow>
      history (state (finalizeTurn uuid now a)) = history (state a)) \<and>
   activeTranscriptionRef (saveSnippet uuid now b) = [] \<and>
   currentText (state (saveSnippet uuid now b)) = [] \<and>
   (length (trim (activeTranscriptionRef b)) \<le> 3 \<longrightarrow>
      history (state (saveSnippet uuid now b)) = history (state b))"
  by (simp add: finalizeTurn_def saveSnippet_def Let_def)

text \<open>
  The theorem at the buffers "ok" and "hey", which are not empty after trimming.
\<close>

theorem finalize_clears_buffer_witness:
  "length (trim (currentTranscriptionRef
      \<lparr>state = \<lparr>currentText = ascii ''ok'', history = [], isRecording = True, status = Listening\<rparr>,
       currentTranscriptionRef = ascii ''ok''\<rparr>)) \<le> 2 \<and>
   trim (ascii ''ok'') \<noteq> [] \<and>
   history (state (finalizeTurn (ascii ''id-3'') 11
      \<lparr>state = \<lparr>currentText = ascii ''ok'', history = [], isRecording = True, status = Listening\<rparr>,
       currentTranscriptionRef = ascii ''ok''\<rparr>)) = [] \<and>
   length (trim (activeTranscriptionRef
      \<lparr>state = \<lparr>currentText = ascii ''hey'', history = [], isRecording = True, status = Listening\<rparr>,
       activeTranscriptionRef = ascii ''hey''\<rparr>)) \<le> 3 \<and>
   trim (ascii ''hey'') \<noteq> [] \<and>
   history (state (saveSnippet (ascii ''id-3'') 11
      \<lparr>state = \<lparr>currentText = ascii ''hey'', history = [], isRecording = True, status = Listening\<rparr>,
       activeTranscriptionRef = ascii ''hey''\<rparr>)) = []"
proof -
  let ?a = "\<lparr>state = \<lparr>currentText = ascii ''ok'', history = [], isRecording = True, status = Listening\<rparr>,
       currentTranscriptionRef = ascii ''ok''\<rparr>"
  let ?b = "\<lparr>state = \<lparr>currentText = ascii ''hey'', history = [], isRecording = True, status = Listening\<rparr>,
       activeTranscriptionRef = ascii ''hey''\<rparr>"
  have t1: "trim (ascii ''ok'') = ascii ''ok''" by code_simp
  have t2: "trim (ascii ''hey'') = ascii ''hey''" by code_simp
  have l: "length (ascii ''ok'') \<le> 2" "length (ascii ''hey'') \<le> 3" "ascii ''ok'' \<noteq> []" "ascii ''hey'' \<noteq> []"
    by (simp_all add: ascii_def)
  have h1: "length (trim (currentTranscriptionRef ?a)) \<le> 2" by (simp add: t1 l)
  have h2: "length (trim (activeTranscriptionRef ?b)) \<le> 3" by (simp add: t2 l)
  from h1 h2 finalize_clears_buffer [of "ascii ''id-3''" 11 ?a ?b]
  show ?thesis by (simp add: t1 t2 l)
qed

end
